theory Spec2Isabelle
  imports Main "HOL-Library.Word"
begin

section \<open>The pointer queue of \<open>main.c\<close>\<close>

text \<open>
  A shallow embedding of the ring-buffer queue of \<open>main.c\<close> / \<open>main.h\<close> (LP64 Linux, the
  platforms the README names): \<open>void *\<close> and \<open>size_t\<close> are 64-bit words, \<open>__u32\<close> and
  \<open>__s32\<close> are 32-bit words (the latter read with \<open>sint\<close>), \<open>int\<close> is \<open>int\<close>.
  Every function takes the value of \<open>errno\<close> before the call and returns the one after it.
  \<open>pq_free\<close> and \<open>pq_print\<close> play no part in the properties below and are left out.
\<close>

type_synonym ptr = "64 word"
type_synonym size_t = "64 word"
type_synonym u32 = "32 word"
type_synonym s32 = "32 word"

definition NULL :: ptr where
  "NULL = 0"

text \<open>The two \<open>errno\<close> values the code assigns, with their Linux \<open>errno.h\<close> numbers.\<close>

definition EINVAL :: int where
  "EINVAL = 22"

definition ENOMEM :: int where
  "ENOMEM = 12"

text \<open>
  \<open>struct ptr_queue\<close>. \<open>mtx\<close> is \<open>True\<close> while some other thread holds the mutex; \<open>data\<close> is
  the array obtained from \<open>calloc\<close>, one list element per allocated slot; \<open>buf\<close> is the base
  address of the pool region (its bytes are never read by the queue). The condition variable
  carries no state of its own.
\<close>

record ptr_queue =
  mtx :: bool
  waiting :: int
  data :: "ptr list"
  buf :: ptr
  head :: u32
  tail :: u32
  array_capacity :: u32
  user_capacity :: u32

text \<open>
  What a call does, seen from the calling thread: it returns a value and leaves \<open>errno\<close>;
  or it never returns, sleeping in \<open>pthread_mutex_lock\<close> or \<open>pthread_cond_wait\<close> with the
  queue in the given state (no other thread runs in this model, so nobody unlocks or
  signals, and \<open>pthread_cond_wait\<close> is taken to return only when signalled); or it reads
  or writes \<open>data\<close> outside the allocated array, which C leaves undefined.
\<close>

datatype 'a outcome = Return 'a int | Blocked ptr_queue | Fault

subsection \<open>\<open>pq_empty\<close>\<close>

definition pq_empty :: "ptr_queue option \<Rightarrow> int \<Rightarrow> int outcome" where
  "pq_empty pq errno =
     (case pq of
        None \<Rightarrow> Return (- 1) EINVAL
      | Some q \<Rightarrow>
          if mtx q then Blocked q
          else if head q = tail q then Return 1 errno else Return 0 errno)"

subsection \<open>\<open>pq_len\<close>\<close>

definition pq_len :: "ptr_queue option \<Rightarrow> int \<Rightarrow> s32 outcome" where
  "pq_len pq errno =
     (case pq of
        None \<Rightarrow> Return (word_of_int (- EINVAL)) EINVAL
      | Some q \<Rightarrow>
          if mtx q then Blocked q
          else if head q = tail q then Return 0 errno
          else if tail q > head q then Return (tail q - head q) errno
          else if head q > tail q then Return ((array_capacity q - head q) + tail q) errno
          else Return 0 errno)"

subsection \<open>\<open>pq_push\<close>\<close>

text \<open>
  The returned pair is the \<open>int\<close> result and the queue object after the call.
  \<open>pthread_cond_signal\<close> (STEP 7) changes nothing in the queue object.
\<close>

definition pq_push :: "ptr_queue option \<Rightarrow> ptr \<Rightarrow> int \<Rightarrow> (int \<times> ptr_queue option) outcome" where
  "pq_push pq p errno =
     (case pq of
        None \<Rightarrow> Return (1, None) EINVAL
      | Some q \<Rightarrow>
          if mtx q then Blocked q
          else
            let new_tail = tail q + 1;
                new_tail = (if new_tail \<ge> array_capacity q
                            then new_tail - array_capacity q else new_tail)
            in if new_tail = head q then Return (1, Some q) ENOMEM
               else if unat (tail q) < length (data q)
               then Return (0, Some (q\<lparr>data := (data q)[unat (tail q) := p],
                                       tail := new_tail\<rparr>)) errno
               else Fault)"

subsection \<open>\<open>pq_pop\<close>\<close>

text \<open>STEP 4 and STEP 5: read the slot at \<open>head\<close>, clear it, advance \<open>head\<close>.\<close>

definition pop_take :: "ptr_queue \<Rightarrow> int \<Rightarrow> (ptr \<times> ptr_queue option) outcome" where
  "pop_take q errno =
     (if unat (head q) < length (data q)
      then
        let rv = data q ! unat (head q);
            d = (data q)[unat (head q) := NULL];
            h = head q + 1;
            h = (if h \<ge> array_capacity q then h - array_capacity q else h)
        in Return (rv, Some (q\<lparr>data := d, head := h\<rparr>)) errno
      else Fault)"

definition pq_pop :: "ptr_queue option \<Rightarrow> int \<Rightarrow> int \<Rightarrow> (ptr \<times> ptr_queue option) outcome" where
  "pq_pop pq wait errno =
     (case pq of
        None \<Rightarrow> Return (NULL, None) EINVAL
      | Some q \<Rightarrow>
          if wait \<noteq> 0 \<and> mtx q then Blocked q
          else if wait = 0 \<and> mtx q then Return (NULL, Some q) errno
          else if head q = tail q then
            (if wait = 0 then Return (NULL, Some q) errno
             else
               let q = q\<lparr>waiting := 1\<rparr>
               in if head q = tail q then Blocked q
                  else pop_take (q\<lparr>waiting := 0\<rparr>) errno)
          else pop_take q errno)"

subsection \<open>\<open>pq_init\<close>\<close>

text \<open>
  The three \<open>calloc\<close> calls of \<open>pq_init\<close> are answered by the environment: whether the
  struct and the slot array were obtained, and the address returned for the pool region
  (\<open>NULL\<close> when that allocation fails).
\<close>

record allocator =
  calloc_pq :: bool
  calloc_data :: bool
  calloc_buf :: ptr

text \<open>The loop of STEP 4, from index \<open>i\<close> on; the result of each \<open>pq_push\<close> is dropped.\<close>

function init_loop :: "ptr_queue \<Rightarrow> size_t \<Rightarrow> size_t \<Rightarrow> size_t \<Rightarrow> int \<Rightarrow> ptr_queue outcome" where
  "init_loop q i count obj_size errno =
     (if i < count then
        (case pq_push (Some q) (buf q + i * obj_size) errno of
           Return (rv, Some q') errno' \<Rightarrow> init_loop q' (i + 1) count obj_size errno'
         | Return (rv, None) errno' \<Rightarrow> Fault
         | Blocked q' \<Rightarrow> Blocked q'
         | Fault \<Rightarrow> Fault)
      else Return q errno)"
  by pat_completeness auto
termination
proof (relation "measure (\<lambda>(q, i, count, obj_size, errno). unat count - unat i)")
  show "wf (measure (\<lambda>(q, i, count, obj_size, errno). unat count - unat i))"
    by simp
next
  fix q :: ptr_queue and i count obj_size :: size_t and errno :: int
    and x :: "(int \<times> ptr_queue option) outcome" and x11 :: "int \<times> ptr_queue option"
    and errno' :: int and rv :: int and x2 :: "ptr_queue option" and q' :: ptr_queue
  assume "i < count"
  then have "unat count - unat (i + 1) < unat count - unat i"
    by unat_arith
  then show "((q', i + 1, count, obj_size, errno'), (q, i, count, obj_size, errno))
      \<in> measure (\<lambda>(q, i, count, obj_size, errno). unat count - unat i)"
    by simp
qed

declare init_loop.simps [simp del]

definition pq_init :: "size_t \<Rightarrow> size_t \<Rightarrow> allocator \<Rightarrow> int \<Rightarrow> ptr_queue option outcome" where
  "pq_init count obj_size al errno =
     (if count = 0 then Return None EINVAL
      else if \<not> calloc_pq al then Return None ENOMEM
      else
        let q = \<lparr>mtx = False, waiting = 0, data = [], buf = NULL, head = 0, tail = 0,
                 array_capacity = ucast (count + 1), user_capacity = ucast count\<rparr>
        in if \<not> calloc_data al then Return None ENOMEM
           else
             let q = q\<lparr>data := replicate (unat (array_capacity q)) NULL\<rparr>
             in if obj_size > 0 then
                  (let q = q\<lparr>buf := calloc_buf al\<rparr>
                   in if buf q = NULL then Return (Some q) ENOMEM
                      else
                        (case init_loop q 0 count obj_size errno of
                           Return q' errno' \<Rightarrow> Return (Some q') errno'
                         | Blocked q' \<Rightarrow> Blocked q'
                         | Fault \<Rightarrow> Fault))
                else Return (Some q) errno)"

section \<open>Single-threaded runs\<close>

text \<open>
  A thread that calls \<open>pq_push\<close> and \<open>pq_pop\<close> one after the other on a queue it owns.
  A run stops at the first call that does not return. Each returned call leaves an event:
  the argument and result of a push; the \<open>wait\<close> flag and result of a pop, together with
  whether that pop went past the emptiness test of STEP 3 and dequeued a slot (which the
  returned pointer alone does not tell).
\<close>

datatype op = Push ptr | Pop int

datatype event = PushEv ptr int | PopEv int ptr bool

definition pop_dequeues :: "ptr_queue \<Rightarrow> bool" where
  "pop_dequeues q \<longleftrightarrow> \<not> mtx q \<and> head q \<noteq> tail q"

fun run :: "ptr_queue \<Rightarrow> int \<Rightarrow> op list \<Rightarrow> event list \<times> ptr_queue outcome" where
  "run q errno [] = ([], Return q errno)"
| "run q errno (Push p # ops) =
     (case pq_push (Some q) p errno of
        Return (rv, Some q') errno' \<Rightarrow>
          (case run q' errno' ops of (evs, fin) \<Rightarrow> (PushEv p rv # evs, fin))
      | Return (rv, None) errno' \<Rightarrow> ([], Fault)
      | Blocked q' \<Rightarrow> ([], Blocked q')
      | Fault \<Rightarrow> ([], Fault))"
| "run q errno (Pop w # ops) =
     (case pq_pop (Some q) w errno of
        Return (v, Some q') errno' \<Rightarrow>
          (case run q' errno' ops of (evs, fin) \<Rightarrow> (PopEv w v (pop_dequeues q) # evs, fin))
      | Return (v, None) errno' \<Rightarrow> ([], Fault)
      | Blocked q' \<Rightarrow> ([], Blocked q')
      | Fault \<Rightarrow> ([], Fault))"

text \<open>The references accepted by the pushes of a run, and those handed out by its pops.\<close>

fun pushed :: "event list \<Rightarrow> ptr list" where
  "pushed [] = []"
| "pushed (PushEv p rv # evs) = (if rv = 0 then p # pushed evs else pushed evs)"
| "pushed (PopEv w v d # evs) = pushed evs"

fun popped :: "event list \<Rightarrow> ptr list" where
  "popped [] = []"
| "popped (PushEv p rv # evs) = popped evs"
| "popped (PopEv w v d # evs) = (if d then v # popped evs else popped evs)"

section \<open>Invariant and abstraction\<close>

text \<open>
  The state invariant of the data model: the slot array has \<open>array_capacity\<close> elements
  and both indices lie inside it.
\<close>

definition pq_inv :: "ptr_queue \<Rightarrow> bool" where
  "pq_inv q \<longleftrightarrow>
     length (data q) = unat (array_capacity q) \<and>
     head q < array_capacity q \<and> tail q < array_capacity q"

text \<open>The live entries: the slots of the circular range from \<open>head\<close> up to \<open>tail\<close>, oldest first.\<close>

definition live :: "ptr_queue \<Rightarrow> ptr list" where
  "live q =
     (if head q \<le> tail q
      then take (unat (tail q) - unat (head q)) (drop (unat (head q)) (data q))
      else drop (unat (head q)) (data q) @ take (unat (tail q)) (data q))"

text \<open>The three-case length of the specification, on unbounded integers.\<close>

definition length_spec :: "nat \<Rightarrow> nat \<Rightarrow> nat \<Rightarrow> nat" where
  "length_spec h t cap =
     (if h = t then 0 else if t > h then t - h else (cap - h) + t)"

text \<open>
  The index step written out in STEP 3 of \<open>pq_push\<close> and STEP 5 of \<open>pq_pop\<close>:
  add one, then subtract the capacity once if the result reached it.
\<close>

definition advance :: "u32 \<Rightarrow> u32 \<Rightarrow> u32" where
  "advance i cap = (if i + 1 \<ge> cap then i + 1 - cap else i + 1)"

text \<open>The circular range of a list between two positions.\<close>

definition ring :: "nat \<Rightarrow> nat \<Rightarrow> 'a list \<Rightarrow> 'a list" where
  "ring h t d = (if h \<le> t then take (t - h) (drop h d) else drop h d @ take t d)"

text \<open>The queue a run ends with, if it did not leave the slot array.\<close>

definition final_queue :: "ptr_queue outcome \<Rightarrow> ptr_queue option" where
  "final_queue fin = (case fin of Return q e \<Rightarrow> Some q | Blocked q \<Rightarrow> Some q | Fault \<Rightarrow> None)"

text \<open>
  The queue object \<open>pq_init\<close> hands out when \<open>obj_size\<close> is zero, both allocations
  succeed and \<open>count + 1\<close> fits the 32-bit capacity field.
\<close>

definition fresh :: "size_t \<Rightarrow> ptr_queue" where
  "fresh count = \<lparr>mtx = False, waiting = 0, data = replicate (unat count + 1) NULL, buf = NULL,
     head = 0, tail = 0, array_capacity = ucast (count + 1), user_capacity = ucast count\<rparr>"

text \<open>The address of pool object \<open>k\<close>: \<open>&pq->buf[k * obj_size]\<close>.\<close>

definition pool_addr :: "ptr \<Rightarrow> size_t \<Rightarrow> nat \<Rightarrow> ptr" where
  "pool_addr b obj_size k = b + of_nat k * obj_size"

text \<open>An allocator that grants every request, and one whose pool allocation fails.\<close>

definition al_ok :: allocator where
  "al_ok = \<lparr>calloc_pq = True, calloc_data = True, calloc_buf = 4096\<rparr>"

definition al_nobuf :: allocator where
  "al_nobuf = \<lparr>calloc_pq = True, calloc_data = True, calloc_buf = NULL\<rparr>"

text \<open>Three states of a queue of user capacity 2, used as concrete inputs below.\<close>

definition ex_one :: ptr_queue where
  "ex_one = \<lparr>mtx = False, waiting = 0, data = [7, 0, 0], buf = NULL, head = 0, tail = 1,
     array_capacity = 3, user_capacity = 2\<rparr>"

definition ex_full :: ptr_queue where
  "ex_full = \<lparr>mtx = False, waiting = 0, data = [7, 9, 0], buf = NULL, head = 0, tail = 2,
     array_capacity = 3, user_capacity = 2\<rparr>"

definition ex_rest :: ptr_queue where
  "ex_rest = \<lparr>mtx = False, waiting = 0, data = [0, 9, 0], buf = NULL, head = 1, tail = 2,
     array_capacity = 3, user_capacity = 2\<rparr>"

section \<open>Index arithmetic\<close>

lemma unat_advance:
  assumes "i < cap"
  shows "unat (advance i cap) = (if Suc (unat i) = unat cap then 0 else Suc (unat i))"
proof -
  have a: "unat (i + 1) = Suc (unat i)" using assms by unat_arith
  have b: "unat i < unat cap" using assms by (simp add: word_less_nat_alt)
  show ?thesis
  proof (cases "cap \<le> i + 1")
    case True
    then have "unat cap \<le> Suc (unat i)" using a by (simp add: word_le_nat_alt)
    with b have e: "Suc (unat i) = unat cap" by simp
    then have "i + 1 = cap" using a by (metis word_unat_eq_iff)
    then show ?thesis using e True by (simp add: advance_def)
  next
    case False
    then have "\<not> unat cap \<le> Suc (unat i)" using a by (simp add: word_le_nat_alt)
    then show ?thesis using False a by (simp add: advance_def)
  qed
qed

lemma suc_mod_wrap: "n < c \<Longrightarrow> Suc n mod c = (if Suc n = c then 0 else Suc n)"
  by auto

lemma unat_advance_mod:
  "i < cap \<Longrightarrow> unat (advance i cap) = (unat i + 1) mod unat cap"
  by (simp add: unat_advance suc_mod_wrap word_less_nat_alt)

lemma advance_less: "i < cap \<Longrightarrow> advance i cap < cap"
  by (simp add: word_less_nat_alt unat_advance)

section \<open>Circular ranges of a list\<close>

lemma take_Suc_upd: "k < length ys \<Longrightarrow> take (Suc k) (ys[k := p]) = take k ys @ [p]"
  by (simp add: take_Suc_conv_app_nth)

lemma upd_last: "length ys = Suc k \<Longrightarrow> ys[k := p] = take k ys @ [p]"
  using take_Suc_upd[of k ys p] by simp

lemma ring_push:
  assumes "h < length d" "t < length d" "(if Suc t = length d then 0 else Suc t) \<noteq> h"
  shows "ring h (if Suc t = length d then 0 else Suc t) (d[t := p]) = ring h t d @ [p]"
proof (cases "h \<le> t")
  case True
  note ht = this
  show ?thesis
  proof (cases "Suc t = length d")
    case True
    with assms have "0 < h" by auto
    moreover have "length (drop h d) = Suc (t - h)" using True ht by auto
    ultimately show ?thesis using True ht
      by (simp add: ring_def drop_update_swap upd_last drop_take)
  next
    case False
    then have "t - h < length (drop h d)" using assms ht by auto
    then show ?thesis using False ht
      by (simp add: ring_def drop_update_swap Suc_diff_le take_Suc_upd)
  qed
next
  case False
  then have "Suc t \<noteq> length d" using assms by auto
  then show ?thesis using False assms
    by (auto simp add: ring_def take_Suc_upd)
qed

lemma ring_pop:
  assumes "h < length d" "t < length d" "h \<noteq> t"
  shows "ring h t d = d ! h # ring (if Suc h = length d then 0 else Suc h) t (d[h := x])"
proof (cases "h \<le> t")
  case True
  then have "h < t" using assms by simp
  then have "Suc h \<noteq> length d" using assms by auto
  moreover have "take (t - h) (drop h d) = d ! h # take (t - Suc h) (drop (Suc h) d)"
    using \<open>h < t\<close> assms
    by (metis Cons_nth_drop_Suc Suc_diff_Suc take_Suc_Cons)
  ultimately show ?thesis using \<open>h < t\<close>
    by (simp add: ring_def)
next
  case False
  then have th: "t < h" by simp
  have dr: "drop h d = d ! h # drop (Suc h) d"
    using assms by (simp add: Cons_nth_drop_Suc)
  show ?thesis
  proof (cases "Suc h = length d")
    case True
    then show ?thesis using th dr
      by (simp add: ring_def)
  next
    case False
    then show ?thesis using th dr
      by (simp add: ring_def)
  qed
qed

section \<open>One call on a queue that satisfies the invariant\<close>

lemma pq_push_advance:
  "\<not> mtx q \<Longrightarrow> pq_push (Some q) p e =
     (if advance (tail q) (array_capacity q) = head q then Return (1, Some q) ENOMEM
      else if unat (tail q) < length (data q)
      then Return (0, Some (q\<lparr>data := (data q)[unat (tail q) := p],
                             tail := advance (tail q) (array_capacity q)\<rparr>)) e
      else Fault)"
  by (simp add: pq_push_def advance_def Let_def)

lemma pop_take_advance:
  "pop_take q e =
     (if unat (head q) < length (data q)
      then Return (data q ! unat (head q),
                   Some (q\<lparr>data := (data q)[unat (head q) := NULL],
                          head := advance (head q) (array_capacity q)\<rparr>)) e
      else Fault)"
  by (simp add: pop_take_def advance_def Let_def)

lemma live_ring: "live q = ring (unat (head q)) (unat (tail q)) (data q)"
  by (simp add: live_def ring_def word_le_nat_alt)

lemma inv_bounds:
  "pq_inv q \<Longrightarrow> unat (head q) < length (data q) \<and> unat (tail q) < length (data q)"
  by (simp add: pq_inv_def word_less_nat_alt)

lemma len_live:
  "pq_inv q \<Longrightarrow>
   length (live q) = length_spec (unat (head q)) (unat (tail q)) (unat (array_capacity q))"
  unfolding pq_inv_def live_def length_spec_def
  by (auto simp: word_le_nat_alt word_less_nat_alt)

lemma len_live_less: "pq_inv q \<Longrightarrow> length (live q) < unat (array_capacity q)"
  unfolding pq_inv_def live_def
  by (auto simp: word_le_nat_alt word_less_nat_alt)

lemma live_empty_iff: "pq_inv q \<Longrightarrow> live q = [] \<longleftrightarrow> head q = tail q"
  unfolding pq_inv_def live_def
  by (auto simp: word_le_nat_alt word_less_nat_alt word_unat_eq_iff)

lemma push_full:
  assumes "\<not> mtx q" "advance (tail q) (array_capacity q) = head q"
  shows "pq_push (Some q) p e = Return (1, Some q) ENOMEM"
  using assms by (simp add: pq_push_advance)

lemma push_ok:
  fixes p :: ptr
  assumes "pq_inv q" "\<not> mtx q" "advance (tail q) (array_capacity q) \<noteq> head q"
  defines "q' \<equiv> q\<lparr>data := (data q)[unat (tail q) := p],
                    tail := advance (tail q) (array_capacity q)\<rparr>"
  shows "pq_push (Some q) p e = Return (0, Some q') e"
    and "pq_inv q'" and "\<not> mtx q'" and "live q' = live q @ [p]"
    and "array_capacity q' = array_capacity q" and "user_capacity q' = user_capacity q"
proof -
  note b = inv_bounds[OF assms(1)]
  have tl: "tail q < array_capacity q" using assms(1) by (simp add: pq_inv_def)
  show "pq_push (Some q) p e = Return (0, Some q') e"
    using assms(2,3) b by (simp add: pq_push_advance q'_def)
  show "pq_inv q'" using assms(1) advance_less[OF tl] by (simp add: pq_inv_def q'_def)
  show "\<not> mtx q'" using assms(2) by (simp add: q'_def)
  show "array_capacity q' = array_capacity q" by (simp add: q'_def)
  show "user_capacity q' = user_capacity q" by (simp add: q'_def)
  have len: "length (data q) = unat (array_capacity q)" using assms(1) by (simp add: pq_inv_def)
  have ua: "unat (advance (tail q) (array_capacity q)) =
      (if Suc (unat (tail q)) = length (data q) then 0 else Suc (unat (tail q)))"
    using unat_advance[OF tl] len by simp
  have ne: "(if Suc (unat (tail q)) = length (data q) then 0 else Suc (unat (tail q)))
      \<noteq> unat (head q)"
    using assms(3) ua by (metis word_unat_eq_iff)
  show "live q' = live q @ [p]"
    using ring_push[OF conjunct1[OF b] conjunct2[OF b] ne, of p] ua
    by (simp add: live_ring q'_def)
qed

text \<open>\<open>pop_dequeues\<close> tells which way \<open>pq_pop\<close> goes: on to STEP 4, or out by a \<open>goto\<close>.\<close>

lemma pop_dequeues_take: "pop_dequeues q \<Longrightarrow> pq_pop (Some q) w e = pop_take q e"
  by (simp add: pop_dequeues_def pq_pop_def)

lemma not_pop_dequeues_nowait:
  "\<not> pop_dequeues q \<Longrightarrow> pq_pop (Some q) 0 e = Return (NULL, Some q) e"
  by (auto simp add: pop_dequeues_def pq_pop_def)

lemma pop_empty_nowait:
  assumes "\<not> mtx q" "head q = tail q"
  shows "pq_pop (Some q) 0 e = Return (NULL, Some q) e"
  using assms by (simp add: pq_pop_def)

lemma pop_empty_wait:
  assumes "\<not> mtx q" "head q = tail q" "w \<noteq> 0"
  shows "pq_pop (Some q) w e = Blocked (q\<lparr>waiting := 1\<rparr>)"
  using assms by (simp add: pq_pop_def)

lemma pop_ok:
  assumes "pq_inv q" "\<not> mtx q" "head q \<noteq> tail q"
  defines "q' \<equiv> q\<lparr>data := (data q)[unat (head q) := NULL],
                    head := advance (head q) (array_capacity q)\<rparr>"
  shows "pq_pop (Some q) w e = Return (data q ! unat (head q), Some q') e"
    and "pq_inv q'" and "\<not> mtx q'" and "live q = data q ! unat (head q) # live q'"
    and "array_capacity q' = array_capacity q" and "user_capacity q' = user_capacity q"
proof -
  note b = inv_bounds[OF assms(1)]
  have hd: "head q < array_capacity q" using assms(1) by (simp add: pq_inv_def)
  show "pq_pop (Some q) w e = Return (data q ! unat (head q), Some q') e"
    using assms(2,3) b by (simp add: pq_pop_def pop_take_advance q'_def)
  show "pq_inv q'" using assms(1) advance_less[OF hd] by (simp add: pq_inv_def q'_def)
  show "\<not> mtx q'" using assms(2) by (simp add: q'_def)
  show "array_capacity q' = array_capacity q" by (simp add: q'_def)
  show "user_capacity q' = user_capacity q" by (simp add: q'_def)
  have len: "length (data q) = unat (array_capacity q)" using assms(1) by (simp add: pq_inv_def)
  have ua: "unat (advance (head q) (array_capacity q)) =
      (if Suc (unat (head q)) = length (data q) then 0 else Suc (unat (head q)))"
    using unat_advance[OF hd] len by simp
  have ne: "unat (head q) \<noteq> unat (tail q)"
    using assms(3) by (metis word_unat_eq_iff)
  show "live q = data q ! unat (head q) # live q'"
    using ring_pop[OF conjunct1[OF b] conjunct2[OF b] ne, of NULL] ua
    by (simp add: live_ring q'_def)
qed

lemma full_iff:
  assumes "pq_inv q"
  shows "advance (tail q) (array_capacity q) = head q \<longleftrightarrow> Suc (length (live q)) = unat (array_capacity q)"
proof -
  have tl: "tail q < array_capacity q" using assms by (simp add: pq_inv_def)
  have "advance (tail q) (array_capacity q) = head q \<longleftrightarrow> unat (advance (tail q) (array_capacity q)) = unat (head q)"
    by (simp add: word_unat_eq_iff)
  also have "\<dots> \<longleftrightarrow> Suc (length (live q)) = unat (array_capacity q)"
    using assms unfolding unat_advance[OF tl] len_live[OF assms] length_spec_def pq_inv_def
    by (auto simp: word_less_nat_alt)
  finally show ?thesis .
qed

lemma run_inv:
  assumes "pq_inv q" "\<not> mtx q" "run q e ops = (evs, fin)"
  shows "\<exists>q'. final_queue fin = Some q' \<and> pq_inv q' \<and> \<not> mtx q'
          \<and> array_capacity q' = array_capacity q \<and> user_capacity q' = user_capacity q
          \<and> live q @ pushed evs = popped evs @ live q'"
  using assms
proof (induction ops arbitrary: q e evs fin)
  case Nil
  then show ?case by (auto simp: final_queue_def)
next
  case (Cons a ops)
  show ?case
  proof (cases a)
    case (Push p)
    show ?thesis
    proof (cases "advance (tail q) (array_capacity q) = head q")
      case True
      have pf: "pq_push (Some q) p e = Return (1, Some q) ENOMEM"
        using push_full[OF Cons.prems(2) True] .
      obtain evs' where r: "run q ENOMEM ops = (evs', fin)" and ev: "evs = PushEv p 1 # evs'"
        using Cons.prems(3) Push pf by (auto split: prod.splits)
      from Cons.IH[OF Cons.prems(1,2) r] show ?thesis using ev by auto
    next
      case False
      note ok = push_ok[OF Cons.prems(1,2) False, of p]
      let ?q' = "q\<lparr>data := (data q)[unat (tail q) := p], tail := advance (tail q) (array_capacity q)\<rparr>"
      obtain evs' where r: "run ?q' e ops = (evs', fin)" and ev: "evs = PushEv p 0 # evs'"
        using Cons.prems(3) Push ok(1)[of e] by (auto split: prod.splits)
      from Cons.IH[OF ok(2,3) r] show ?thesis using ev ok(4,5,6) by auto
    qed
  next
    case (Pop w)
    show ?thesis
    proof (cases "head q = tail q")
      case True
      note emp = live_empty_iff[OF Cons.prems(1)]
      show ?thesis
      proof (cases "w = 0")
        case True
        have pe: "pq_pop (Some q) w e = Return (NULL, Some q) e"
          using pop_empty_nowait[OF Cons.prems(2) \<open>head q = tail q\<close>] True by simp
        obtain evs' where r: "run q e ops = (evs', fin)" and ev: "evs = PopEv w NULL False # evs'"
          using Cons.prems(3) Pop pe \<open>head q = tail q\<close> by (auto simp: pop_dequeues_def split: prod.splits)
        from Cons.IH[OF Cons.prems(1,2) r] show ?thesis using ev by auto
      next
        case False
        have pe: "pq_pop (Some q) w e = Blocked (q\<lparr>waiting := 1\<rparr>)"
          using pop_empty_wait[OF Cons.prems(2) \<open>head q = tail q\<close> False] .
        then have "evs = []" "fin = Blocked (q\<lparr>waiting := 1\<rparr>)"
          using Cons.prems(3) Pop by auto
        moreover have "live (q\<lparr>waiting := 1\<rparr>) = live q" by (simp add: live_def)
        moreover have "pq_inv (q\<lparr>waiting := 1\<rparr>)" using Cons.prems(1) by (simp add: pq_inv_def)
        ultimately show ?thesis using Cons.prems(2) by (simp add: final_queue_def)
      qed
    next
      case False
      note ok = pop_ok[OF Cons.prems(1,2) False]
      let ?q' = "q\<lparr>data := (data q)[unat (head q) := NULL], head := advance (head q) (array_capacity q)\<rparr>"
      obtain evs' where r: "run ?q' e ops = (evs', fin)" and ev: "evs = PopEv w (data q ! unat (head q)) True # evs'"
        using Cons.prems(3,2) Pop ok(1)[of w e] False by (auto simp: pop_dequeues_def split: prod.splits)
      from Cons.IH[OF ok(2,3) r] show ?thesis using ev ok(4,5,6) by auto
    qed
  qed
qed

lemma run_pushes:
  assumes "pq_inv q" "\<not> mtx q" "length (live q) + length ps < unat (array_capacity q)"
  shows "\<exists>q'. run q e (map Push ps) = (map (\<lambda>p. PushEv p 0) ps, Return q' e)
           \<and> pq_inv q' \<and> \<not> mtx q' \<and> array_capacity q' = array_capacity q
           \<and> user_capacity q' = user_capacity q \<and> head q' = head q
           \<and> live q' = live q @ ps"
  using assms
proof (induction ps arbitrary: q)
  case Nil
  then show ?case by simp
next
  case (Cons p ps)
  have nf: "advance (tail q) (array_capacity q) \<noteq> head q"
    using Cons.prems(3) full_iff[OF Cons.prems(1)] by simp
  note ok = push_ok[OF Cons.prems(1,2) nf, of p]
  let ?q' = "q\<lparr>data := (data q)[unat (tail q) := p], tail := advance (tail q) (array_capacity q)\<rparr>"
  have "length (live ?q') + length ps < unat (array_capacity ?q')"
    using Cons.prems(3) ok(4,5) by simp
  from Cons.IH[OF ok(2,3) this] obtain q'' where
    "run ?q' e (map Push ps) = (map (\<lambda>p. PushEv p 0) ps, Return q'' e)"
    "pq_inv q''" "\<not> mtx q''" "array_capacity q'' = array_capacity ?q'"
    "user_capacity q'' = user_capacity ?q'" "head q'' = head ?q'"
    "live q'' = live ?q' @ ps" by blast
  then show ?case using ok(1)[of e] ok(4) by simp
qed

lemma run_pops:
  assumes "pq_inv q" "\<not> mtx q" "length ws \<le> length (live q)"
  shows "\<exists>q'. run q e (map Pop ws) = (map2 (\<lambda>w v. PopEv w v True) ws (live q), Return q' e)
           \<and> pq_inv q' \<and> \<not> mtx q' \<and> array_capacity q' = array_capacity q
           \<and> user_capacity q' = user_capacity q
           \<and> live q' = drop (length ws) (live q)"
  using assms
proof (induction ws arbitrary: q)
  case Nil
  then show ?case by simp
next
  case (Cons w ws)
  have ne: "head q \<noteq> tail q"
    using Cons.prems(3) live_empty_iff[OF Cons.prems(1)] by auto
  note ok = pop_ok[OF Cons.prems(1,2) ne]
  let ?q' = "q\<lparr>data := (data q)[unat (head q) := NULL], head := advance (head q) (array_capacity q)\<rparr>"
  have "length ws \<le> length (live ?q')"
    using Cons.prems(3) ok(4) by simp
  from Cons.IH[OF ok(2,3) this] obtain q'' where
    "run ?q' e (map Pop ws) = (map2 (\<lambda>w v. PopEv w v True) ws (live ?q'), Return q'' e)"
    "pq_inv q''" "\<not> mtx q''" "array_capacity q'' = array_capacity ?q'"
    "user_capacity q'' = user_capacity ?q'"
    "live q'' = drop (length ws) (live ?q')" by blast
  moreover have "pop_dequeues q" using ne Cons.prems(2) by (simp add: pop_dequeues_def)
  ultimately show ?case using ok(1)[of w e] ok(4) by simp
qed

lemma pq_len_live:
  assumes "pq_inv q" "\<not> mtx q"
  shows "\<exists>r. pq_len (Some q) e = Return r e \<and> unat r = length (live q)"
proof -
  have h: "head q < array_capacity q" and t: "tail q < array_capacity q"
    using assms(1) by (simp_all add: pq_inv_def)
  consider "head q = tail q" | "head q < tail q" | "tail q < head q"
    by (metis linorder_less_linear)
  then show ?thesis
  proof cases
    case 1
    then show ?thesis using assms
      by (simp add: pq_len_def len_live length_spec_def)
  next
    case 2
    then have "unat (tail q - head q) = unat (tail q) - unat (head q)"
      by unat_arith
    then show ?thesis using 2 assms
      by (auto simp add: pq_len_def len_live length_spec_def word_less_nat_alt)
  next
    case 3
    then have "unat (array_capacity q - head q + tail q) = unat (array_capacity q) - unat (head q) + unat (tail q)"
      using h t by unat_arith
    then show ?thesis using 3 assms
      by (auto simp add: pq_len_def len_live length_spec_def word_less_nat_alt)
  qed
qed

section \<open>Initialisation\<close>

lemma unat_ucast_mod: "unat (ucast (w::size_t) :: u32) = unat w mod 2 ^ 32"
  by (simp add: unsigned_ucast_eq take_bit_eq_mod)

lemma unat_cap:
  assumes "unat (count::size_t) + 1 < 2 ^ 32"
  shows "unat (ucast (count + 1) :: u32) = unat count + 1"
proof -
  have "unat count + unat (1::size_t) < 2 ^ LENGTH(64)" using assms by simp
  then have "unat (count + 1) = unat count + unat (1::size_t)" by (simp only: unat_add_lem)
  then have "unat (count + 1) = unat count + 1" by simp
  then show ?thesis using assms by (simp add: unat_ucast_mod)
qed

lemma fresh_props:
  assumes "unat (count::size_t) + 1 < 2 ^ 32"
  shows "pq_inv (fresh count)" "\<not> mtx (fresh count)" "live (fresh count) = []"
    "unat (array_capacity (fresh count)) = unat count + 1"
    "unat (user_capacity (fresh count)) = unat count"
proof -
  have c: "unat (array_capacity (fresh count)) = unat count + 1"
    using unat_cap[OF assms] by (simp add: fresh_def)
  then show "unat (array_capacity (fresh count)) = unat count + 1" .
  have "0 < array_capacity (fresh count)" using c by (simp add: word_less_nat_alt)
  then show "pq_inv (fresh count)" using c by (simp add: pq_inv_def) (simp add: fresh_def)
  show "\<not> mtx (fresh count)" by (simp add: fresh_def)
  show "live (fresh count) = []" by (simp add: live_def fresh_def)
  show "unat (user_capacity (fresh count)) = unat count"
    using assms by (simp add: fresh_def unat_ucast_mod)
qed

lemma pq_init_plain:
  assumes "count \<noteq> 0" "unat count + 1 < 2 ^ 32" "calloc_pq al" "calloc_data al"
  shows "pq_init count 0 al e = Return (Some (fresh count)) e"
  using assms unat_cap[OF assms(2)]
  by (simp add: pq_init_def fresh_def Let_def)

lemma init_loop_full:
  assumes "\<not> mtx q" "advance (tail q) (array_capacity q) = head q"
  shows "init_loop q i count obj_size e = Return q (if i < count then ENOMEM else e)"
  using assms
proof (induction q i count obj_size e rule: init_loop.induct)
  case (1 q i count obj_size errno)
  show ?case
  proof (cases "i < count")
    case True
    have pf: "pq_push (Some q) (buf q + i * obj_size) errno = Return (1, Some q) ENOMEM"
      using push_full[OF 1(2,3)] .
    have ih: "init_loop q (i + 1) count obj_size ENOMEM = Return q (if i + 1 < count then ENOMEM else ENOMEM)"
      using 1(1)[OF True pf refl refl 1(2,3)] .
    show ?thesis
      using True pf ih by (subst init_loop.simps) simp
  next
    case False
    then show ?thesis by (subst init_loop.simps) simp
  qed
qed

lemma init_loop_fill:
  assumes "pq_inv q" "\<not> mtx q" "i \<le> count"
    "length (live q) + (unat count - unat i) < unat (array_capacity q)"
  shows "\<exists>q'. init_loop q i count obj_size e = Return q' e \<and> pq_inv q' \<and> \<not> mtx q'
           \<and> array_capacity q' = array_capacity q \<and> user_capacity q' = user_capacity q
           \<and> buf q' = buf q
           \<and> live q' = live q @ map (\<lambda>k. buf q + of_nat k * obj_size) [unat i ..< unat count]"
  using assms
proof (induction q i count obj_size e rule: init_loop.induct)
  case (1 q i count obj_size errno)
  show ?case
  proof (cases "i < count")
    case True
    then have lt: "unat i < unat count" by (simp add: word_less_nat_alt)
    have s: "unat (i + 1) = Suc (unat i)" using True by unat_arith
    have le: "i + 1 \<le> count" using s lt by (simp add: word_le_nat_alt)
    have nf: "advance (tail q) (array_capacity q) \<noteq> head q"
      using 1(5) lt full_iff[OF 1(2)] by simp
    let ?p = "buf q + i * obj_size"
    let ?q' = "q\<lparr>data := (data q)[unat (tail q) := ?p], tail := advance (tail q) (array_capacity q)\<rparr>"
    note ok = push_ok[OF 1(2,3) nf, of ?p]
    have room: "length (live ?q') + (unat count - unat (i + 1)) < unat (array_capacity ?q')"
      using 1(5) lt s ok(4,5) by simp
    from 1(1)[OF True ok(1) refl refl ok(2,3) le room]
    obtain q'' where r: "init_loop ?q' (i + 1) count obj_size errno = Return q'' errno"
      and p: "pq_inv q''" "\<not> mtx q''" "array_capacity q'' = array_capacity ?q'"
        "user_capacity q'' = user_capacity ?q'" "buf q'' = buf ?q'"
        "live q'' = live ?q' @ map (\<lambda>k. buf ?q' + of_nat k * obj_size) [unat (i + 1) ..< unat count]"
      by blast
    have "init_loop q i count obj_size errno = Return q'' errno"
      using True ok(1)[of errno] r by (subst init_loop.simps) simp
    moreover have "[unat i ..< unat count] = unat i # [Suc (unat i) ..< unat count]"
      using lt by (simp add: upt_conv_Cons)
    ultimately show ?thesis using p ok(4) s by simp
  next
    case False
    then have "i = count" using 1(4) by simp
    then show ?thesis using 1(2,3) by (subst init_loop.simps) simp
  qed
qed

section \<open>Reading a length as \<open>__s32\<close>\<close>

lemma sint_small:
  assumes "unat (r::32 word) < 2147483648" shows "sint r = int (unat r)"
proof -
  have "uint r < 2147483648" unfolding uint_nat using assms by linarith
  then have a: "uint r < 2 ^ 31" by simp
  have "0 \<le> uint r" by simp
  then have "- 2147483648 \<le> uint r" by linarith
  then have b: "- (2 ^ 31) \<le> uint r" by simp
  have s: "signed_take_bit 31 (uint r) = uint r"
    using b a by (rule signed_take_bit_int_eq_self)
  have l: "LENGTH(32) - Suc 0 = 31" by simp
  have "sint r = signed_take_bit 31 (uint r)"
    using sint_uint[of r] unfolding l .
  then have "sint r = uint r" using s by (simp only:)
  then show ?thesis by (simp only: uint_nat)
qed

lemma word_of_unat_big:
  assumes "unat (r::s32) = 2147483648" shows "r = 2147483648"
proof -
  have "of_nat (unat r) = (of_nat 2147483648 :: s32)" using assms by (simp only:)
  then show ?thesis by simp
qed

section \<open>Queues whose capacity fits 32 bits\<close>

text \<open>The three example states arise from \<open>pq_init(2, 0)\<close> by pushing 7, pushing 9, popping.\<close>

lemma examples_reachable:
  "pq_init 2 0 al_ok 0 = Return (Some (fresh 2)) 0
   \<and> pq_push (Some (fresh 2)) 7 0 = Return (0, Some ex_one) 0
   \<and> pq_push (Some ex_one) 9 0 = Return (0, Some ex_full) 0
   \<and> pq_pop (Some ex_full) 0 0 = Return (7, Some ex_rest) 0"
  by code_simp

text \<open>Runs compose.\<close>

lemma run_append:
  assumes "run q e xs = (evs, Return q' e')" "run q' e' ys = (evs', fin)"
  shows "run q e (xs @ ys) = (evs @ evs', fin)"
  using assms
proof (induction xs arbitrary: q e evs)
  case Nil
  then show ?case by simp
next
  case (Cons a xs)
  show ?case
  proof (cases a)
    case (Push p)
    then show ?thesis using Cons.prems Cons.IH
      by (auto split: outcome.splits prod.splits option.splits)
  next
    case (Pop w)
    then show ?thesis using Cons.prems Cons.IH
      by (auto split: outcome.splits prod.splits option.splits)
  qed
qed

text \<open>
  When \<open>count + 1\<close> fits the 32-bit field, the queue made by \<open>pq_init(count, 0)\<close>
  accepts exactly \<open>count\<close> pushes in a row and refuses the next one with \<open>ENOMEM\<close>.
\<close>

lemma capacity_exact:
  assumes "count \<noteq> 0" "unat count + 1 < 2 ^ 32" "calloc_pq al" "calloc_data al"
    "length ps = unat count"
  shows "\<exists>q'. pq_init count 0 al e = Return (Some (fresh count)) e
           \<and> run (fresh count) e (map Push ps @ [Push p])
               = (map (\<lambda>p. PushEv p 0) ps @ [PushEv p 1], Return q' ENOMEM)"
proof -
  note f = fresh_props[OF assms(2)]
  have room: "length (live (fresh count)) + length ps < unat (array_capacity (fresh count))"
    using f(3,4) assms(5) by simp
  obtain q' where r: "run (fresh count) e (map Push ps) = (map (\<lambda>p. PushEv p 0) ps, Return q' e)"
    and i': "pq_inv q'" and m': "\<not> mtx q'" and c': "array_capacity q' = array_capacity (fresh count)"
    and l': "live q' = live (fresh count) @ ps"
    using run_pushes[OF f(1) f(2) room, of e] by blast
  have "Suc (length (live q')) = unat (array_capacity q')"
    using l' c' f(3,4) assms(5) by simp
  then have "advance (tail q') (array_capacity q') = head q'"
    using full_iff[OF i'] by simp
  then have "pq_push (Some q') p e = Return (1, Some q') ENOMEM"
    using push_full[OF m'] by simp
  then have "run q' e [Push p] = ([PushEv p 1], Return q' ENOMEM)" by simp
  from run_append[OF r this] pq_init_plain[OF assms(1-4), of e]
  show ?thesis by blast
qed

text \<open>
  When \<open>user_capacity\<close> is below \<open>2^31\<close>, the \<open>__s32\<close> that \<open>pq_len\<close> returns after
  a run is the number of entries live before it, plus the accepted pushes, minus the
  dequeuing pops, and it does not exceed \<open>user_capacity\<close>.
\<close>

lemma length_conservation:
  assumes "pq_inv q" "\<not> mtx q" "unat (user_capacity q) + 1 = unat (array_capacity q)"
    "unat (user_capacity q) < 2147483648"
    "run q e ops = (evs, Return q' e')"
  shows "\<exists>r. pq_len (Some q') e' = Return r e'
           \<and> sint r = int (length (live q)) + int (length (pushed evs)) - int (length (popped evs))
           \<and> sint r \<le> int (unat (user_capacity q'))"
proof -
  obtain q'' where "final_queue (Return q' e' :: ptr_queue outcome) = Some q''" and i': "pq_inv q''"
    and m': "\<not> mtx q''"
    and c': "array_capacity q'' = array_capacity q" and uc': "user_capacity q'' = user_capacity q"
    and eq: "live q @ pushed evs = popped evs @ live q''"
    using run_inv[OF assms(1,2,5)] by blast
  then have q'': "q'' = q'" by (simp add: final_queue_def)
  obtain r where r: "pq_len (Some q') e' = Return r e'" and u: "unat r = length (live q')"
    using pq_len_live[OF i' m', of e'] q'' by auto
  have lt: "length (live q') \<le> unat (user_capacity q')"
    using len_live_less[OF i'] c' uc' q'' assms(3) by simp
  then have "unat r < 2147483648" using u assms(4) uc' q'' by simp
  then have "sint r = int (unat r)" by (rule sint_small)
  then have s: "sint r = int (length (live q'))" by (simp only: u)
  have "length (live q) + length (pushed evs) = length (popped evs) + length (live q')"
    using eq q'' by (metis length_append)
  then have "int (length (live q')) = int (length (live q)) + int (length (pushed evs)) - int (length (popped evs))"
    by linarith
  moreover have "int (length (live q')) \<le> int (unat (user_capacity q'))"
    using lt by (simp only: of_nat_le_iff)
  ultimately show ?thesis using r s by (metis)
qed

text \<open>
  Pool mode, when \<open>count + 1\<close> fits the 32-bit field and \<open>calloc\<close> returned a region of
  \<open>count * obj_size\<close> bytes inside the address space: the queue starts out holding the
  addresses of the \<open>count\<close> objects, which are distinct, not \<open>NULL\<close> and inside the
  region; \<open>count\<close> pops hand them out and the next pop finds the queue empty.
\<close>

lemma pq_init_pool:
  assumes "count \<noteq> 0" "unat count + 1 < 2 ^ 32" "obj_size \<noteq> 0"
    "calloc_pq al" "calloc_data al" "calloc_buf al \<noteq> NULL"
  shows "\<exists>q. pq_init count obj_size al e = Return (Some q) e \<and> pq_inv q \<and> \<not> mtx q
           \<and> buf q = calloc_buf al
           \<and> unat (array_capacity q) = unat count + 1 \<and> unat (user_capacity q) = unat count
           \<and> live q = map (pool_addr (calloc_buf al) obj_size) [0 ..< unat count]"
proof -
  let ?q0 = "(fresh count)\<lparr>buf := calloc_buf al\<rparr>"
  note f = fresh_props[OF assms(2)]
  have i0: "pq_inv ?q0" using f(1) by (simp add: pq_inv_def)
  have m0: "\<not> mtx ?q0" using f(2) by simp
  have l0: "live ?q0 = []" by (simp add: live_def fresh_def)
  have c0: "unat (array_capacity ?q0) = unat count + 1" using f(4) by simp
  have u0: "unat (user_capacity ?q0) = unat count" using f(5) by simp
  have room: "length (live ?q0) + (unat count - unat (0::size_t)) < unat (array_capacity ?q0)"
    using l0 c0 by simp
  obtain q where r: "init_loop ?q0 0 count obj_size e = Return q e"
    and p: "pq_inv q" "\<not> mtx q" "array_capacity q = array_capacity ?q0"
      "user_capacity q = user_capacity ?q0" "buf q = buf ?q0"
      "live q = live ?q0 @ map (\<lambda>k. buf ?q0 + of_nat k * obj_size) [unat (0::size_t) ..< unat count]"
    using init_loop_fill[OF i0 m0 _ room, of obj_size e] by auto
  have pos: "0 < obj_size" using assms(3) by (simp add: word_greater_zero_iff)
  have "pq_init count obj_size al e = Return (Some q) e"
    using assms(1,4,5,6) pos r unat_cap[OF assms(2)]
    by (simp add: pq_init_def fresh_def Let_def)
  moreover have "live q = map (pool_addr (calloc_buf al) obj_size) [0 ..< unat count]"
    using p(6) l0 by (simp add: pool_addr_def)
  ultimately show ?thesis using p(1-5) c0 u0 by auto
qed

lemma unat_pool_addr:
  assumes "unat b + unat count * unat obj_size \<le> 18446744073709551615" "k < unat (count::size_t)"
  shows "unat (pool_addr b obj_size k) = unat b + k * unat obj_size"
proof -
  have p: "(2::nat) ^ LENGTH(64) = 18446744073709551616" by simp
  have le: "k * unat obj_size \<le> unat count * unat obj_size"
    using assms(2) by (simp add: mult_le_mono1)
  have uk: "unat (of_nat k :: size_t) = k"
    using assms(2) by (intro le_unat_uoi[of k count]) simp
  have "k * unat obj_size < 18446744073709551616"
    using le assms(1) by linarith
  then have "unat (of_nat k :: size_t) * unat obj_size < 2 ^ LENGTH(64)"
    unfolding uk p .
  then have "unat (of_nat k * obj_size) = unat (of_nat k :: size_t) * unat obj_size"
    by (rule unat_mult_lem[THEN iffD1])
  then have um: "unat (of_nat k * obj_size) = k * unat obj_size"
    by (simp only: uk)
  have "unat b + k * unat obj_size < 18446744073709551616"
    using le assms(1) by linarith
  then have "unat b + unat (of_nat k * obj_size) < 2 ^ LENGTH(64)"
    unfolding um p .
  then have "unat (b + of_nat k * obj_size) = unat b + unat (of_nat k * obj_size)"
    by (rule unat_add_lem[THEN iffD1])
  then show ?thesis unfolding pool_addr_def um .
qed

lemma pool_addrs:
  assumes "b \<noteq> NULL" "obj_size \<noteq> 0"
    "unat b + unat count * unat obj_size \<le> 18446744073709551615"
  shows "distinct (map (pool_addr b obj_size) [0 ..< unat (count::size_t)])"
    and "\<forall>a \<in> set (map (pool_addr b obj_size) [0 ..< unat count]).
           a \<noteq> NULL \<and> unat b \<le> unat a
           \<and> unat a + unat obj_size \<le> unat b + unat count * unat obj_size"
proof -
  have os: "0 < unat obj_size" using assms(2) by (simp add: unat_gt_0)
  have inj: "inj_on (pool_addr b obj_size) {0 ..< unat count}"
  proof (rule inj_onI)
    fix j k assume jk: "j \<in> {0 ..< unat count}" "k \<in> {0 ..< unat count}"
      and eq: "pool_addr b obj_size j = pool_addr b obj_size k"
    have j: "unat (pool_addr b obj_size j) = unat b + j * unat obj_size"
      using unat_pool_addr[OF assms(3), of j] jk(1) by simp
    have k: "unat (pool_addr b obj_size k) = unat b + k * unat obj_size"
      using unat_pool_addr[OF assms(3), of k] jk(2) by simp
    have "unat b + j * unat obj_size = unat b + k * unat obj_size"
      using j k eq by (simp only:)
    then have "j * unat obj_size = k * unat obj_size" by (simp only: add_left_cancel)
    then show "j = k" using os by auto
  qed
  show "distinct (map (pool_addr b obj_size) [0 ..< unat count])"
    using inj by (simp add: distinct_map)
  show "\<forall>a \<in> set (map (pool_addr b obj_size) [0 ..< unat count]).
           a \<noteq> NULL \<and> unat b \<le> unat a
           \<and> unat a + unat obj_size \<le> unat b + unat count * unat obj_size"
  proof
    fix a assume "a \<in> set (map (pool_addr b obj_size) [0 ..< unat count])"
    then obtain k where k: "k < unat count" and a: "a = pool_addr b obj_size k" by auto
    have ua: "unat a = unat b + k * unat obj_size"
      using unat_pool_addr[OF assms(3) k] a by simp
    have "0 < unat b" using assms(1) by (simp add: unat_gt_0 NULL_def)
    then have "unat a \<noteq> 0" using ua by simp
    then have nn: "a \<noteq> NULL" by (auto simp: NULL_def)
    have "Suc k * unat obj_size \<le> unat count * unat obj_size"
      using k by (intro mult_le_mono1) simp
    then have "unat a + unat obj_size \<le> unat b + unat count * unat obj_size"
      using ua by simp
    then show "a \<noteq> NULL \<and> unat b \<le> unat a
           \<and> unat a + unat obj_size \<le> unat b + unat count * unat obj_size"
      using nn ua by simp
  qed
qed

lemma map2_replicate_pops:
  "length vs = n \<Longrightarrow> map2 (\<lambda>w v. PopEv w v True) (replicate n 0) vs = map (\<lambda>v. PopEv 0 v True) vs"
  by (induction vs arbitrary: n) auto

lemma pool_mode:
  assumes "count \<noteq> 0" "unat count + 1 < 2 ^ 32" "obj_size \<noteq> 0"
    "calloc_pq al" "calloc_data al" "calloc_buf al \<noteq> NULL"
    "unat (calloc_buf al) + unat count * unat obj_size \<le> 18446744073709551615"
  shows "\<exists>q q' r. pq_init count obj_size al e = Return (Some q) e
      \<and> pq_len (Some q) e = Return r e \<and> unat r = unat count
      \<and> run q e (map Pop (replicate (unat count) 0) @ [Pop 0])
          = (map (\<lambda>v. PopEv 0 v True) (live q) @ [PopEv 0 NULL False], Return q' e)
      \<and> length (live q) = unat count \<and> distinct (live q)
      \<and> (\<forall>a \<in> set (live q). a \<noteq> NULL \<and> unat (calloc_buf al) \<le> unat a
            \<and> unat a + unat obj_size \<le> unat (calloc_buf al) + unat count * unat obj_size)"
proof -
  obtain q where i: "pq_init count obj_size al e = Return (Some q) e"
    and inv: "pq_inv q" and m: "\<not> mtx q"
    and l: "live q = map (pool_addr (calloc_buf al) obj_size) [0 ..< unat count]"
    using pq_init_pool[OF assms(1-6), of e] by blast
  have len: "length (live q) = unat count" using l by simp
  obtain r where r: "pq_len (Some q) e = Return r e" and u: "unat r = length (live q)"
    using pq_len_live[OF inv m, of e] by blast
  have "length (replicate (unat count) (0::int)) \<le> length (live q)" using len by simp
  from run_pops[OF inv m this, of e] obtain q' where
    p: "run q e (map Pop (replicate (unat count) 0))
          = (map2 (\<lambda>w v. PopEv w v True) (replicate (unat count) 0) (live q), Return q' e)"
    and inv': "pq_inv q'" and m': "\<not> mtx q'"
    and l': "live q' = drop (length (replicate (unat count) (0::int))) (live q)"
    by blast
  have p': "run q e (map Pop (replicate (unat count) 0))
          = (map (\<lambda>v. PopEv 0 v True) (live q), Return q' e)"
    using p map2_replicate_pops[OF len] by simp
  have e': "head q' = tail q'" using l' len live_empty_iff[OF inv'] by simp
  have "run q' e [Pop 0] = ([PopEv 0 NULL False], Return q' e)"
    using pop_empty_nowait[OF m' e', of e] e' by (simp add: pop_dequeues_def)
  from run_append[OF p' this]
  have runs: "run q e (map Pop (replicate (unat count) 0) @ [Pop 0])
          = (map (\<lambda>v. PopEv 0 v True) (live q) @ [PopEv 0 NULL False], Return q' e)" .
  note a = pool_addrs[OF assms(6,3,7), folded l]
  have ur: "unat r = unat count" using u len by simp
  show ?thesis
    using i r ur len runs a by (intro exI[of _ q] exI[of _ q'] exI[of _ r] conjI)
qed

text \<open>Every queue \<open>pq_init\<close> returns for such a \<open>count\<close> satisfies the invariant.\<close>

lemma pq_init_inv:
  assumes "unat count + 1 < 2 ^ 32" "pq_init count obj_size al e = Return (Some q) e'"
  shows "pq_inv q \<and> \<not> mtx q \<and> unat (array_capacity q) = unat (user_capacity q) + 1"
proof (cases "obj_size = 0")
  case True
  then have "q = fresh count"
    using assms(2) unat_cap[OF assms(1)]
    by (auto simp: pq_init_def fresh_def Let_def split: if_splits)
  then show ?thesis using fresh_props[OF assms(1)] by simp
next
  case False
  then have pos: "0 < obj_size" by (simp add: word_greater_zero_iff)
  note f = fresh_props[OF assms(1)]
  let ?q0 = "(fresh count)\<lparr>buf := calloc_buf al\<rparr>"
  have i0: "pq_inv ?q0" using f(1) by (simp add: pq_inv_def)
  have m0: "\<not> mtx ?q0" using f(2) by simp
  have l0: "live ?q0 = []" by (simp add: live_def fresh_def)
  have c0: "unat (array_capacity ?q0) = unat (user_capacity ?q0) + 1" using f(4,5) by simp
  show ?thesis
  proof (cases "calloc_buf al = NULL")
    case True
    then have "q = ?q0"
      using assms(2) pos unat_cap[OF assms(1)]
      by (auto simp: pq_init_def fresh_def Let_def split: if_splits)
    then show ?thesis using i0 m0 c0 by simp
  next
    case False
    have room: "length (live ?q0) + (unat count - unat (0::size_t)) < unat (array_capacity ?q0)"
      using l0 f(4) by simp
    obtain q1 where r: "init_loop ?q0 0 count obj_size e = Return q1 e"
      and p: "pq_inv q1" "\<not> mtx q1" "array_capacity q1 = array_capacity ?q0"
        "user_capacity q1 = user_capacity ?q0"
      using init_loop_fill[OF i0 m0 _ room, of obj_size e] by auto
    have "q = q1"
      using assms(2) pos False r unat_cap[OF assms(1)]
      by (auto simp: pq_init_def fresh_def Let_def split: if_splits)
    then show ?thesis using p c0 by simp
  qed
qed

section \<open>Calls on a well-formed queue\<close>

text \<open>
  On a queue that satisfies the invariant (both indices below
  \<open>array_capacity\<close>, which is the number of slots) and whose mutex is free: the queue
  object left by \<open>pq_push\<close> and by \<open>pq_pop\<close> satisfies it again, also when a waiting
  pop goes to sleep, and neither call leaves the slot array; the queue has no live entry
  exactly when \<open>head = tail\<close>, which is what \<open>pq_empty\<close> reports; it holds
  \<open>array_capacity - 1\<close> entries exactly when \<open>(tail + 1) mod array_capacity = head\<close>,
  which is exactly when \<open>pq_push\<close> is refused.
\<close>

lemma invariants_preserved:
  assumes "pq_inv q" "\<not> mtx q"
  shows "(\<forall>p e rv q' e'. pq_push (Some q) p e = Return (rv, Some q') e' \<longrightarrow> pq_inv q' \<and> \<not> mtx q')
       \<and> (\<forall>w e v q' e'. pq_pop (Some q) w e = Return (v, Some q') e' \<longrightarrow> pq_inv q' \<and> \<not> mtx q')
       \<and> (\<forall>w e q'. pq_pop (Some q) w e = Blocked q' \<longrightarrow> pq_inv q' \<and> \<not> mtx q')
       \<and> (\<forall>p e. pq_push (Some q) p e \<noteq> Fault \<and> (\<forall>q'. pq_push (Some q) p e \<noteq> Blocked q'))
       \<and> (\<forall>w e. pq_pop (Some q) w e \<noteq> Fault)
       \<and> (live q = [] \<longleftrightarrow> head q = tail q)
       \<and> (\<forall>e. pq_empty (Some q) e = Return (if head q = tail q then 1 else 0) e)
       \<and> (Suc (length (live q)) = unat (array_capacity q)
            \<longleftrightarrow> (unat (tail q) + 1) mod unat (array_capacity q) = unat (head q))
       \<and> (\<forall>p e. pq_push (Some q) p e = Return (1, Some q) ENOMEM
            \<longleftrightarrow> (unat (tail q) + 1) mod unat (array_capacity q) = unat (head q))"
proof -
  have tl: "tail q < array_capacity q" using assms(1) by (simp add: pq_inv_def)
  have c: "(unat (tail q) + 1) mod unat (array_capacity q) = unat (head q)
      \<longleftrightarrow> advance (tail q) (array_capacity q) = head q"
    using unat_advance_mod[OF tl] by (simp add: word_unat_eq_iff)
  have push: "pq_inv q' \<and> \<not> mtx q'" if "pq_push (Some q) p e = Return (rv, Some q') e'"
    for p e rv q' e'
  proof (cases "advance (tail q) (array_capacity q) = head q")
    case True
    then show ?thesis using that push_full[OF assms(2) True, of p e] assms by simp
  next
    case False
    then show ?thesis using that push_ok(1)[OF assms False, of p e] push_ok(2,3)[OF assms False, of p] by auto
  qed
  have pop: "pq_inv q' \<and> \<not> mtx q'" if "pq_pop (Some q) w e = Return (v, Some q') e'"
    for w e v q' e'
  proof (cases "head q = tail q")
    case True
    then show ?thesis using that assms by (auto simp: pq_pop_def split: if_splits)
  next
    case False
    then show ?thesis using that pop_ok(1)[OF assms False, of w e] pop_ok(2,3)[OF assms False] by auto
  qed
  have popb: "pq_inv q' \<and> \<not> mtx q'" if "pq_pop (Some q) w e = Blocked q'" for w e q'
  proof (cases "head q = tail q")
    case True
    then show ?thesis using that assms by (auto simp: pq_pop_def pq_inv_def split: if_splits)
  next
    case False
    then show ?thesis using that pop_ok(1)[OF assms False, of w e] by simp
  qed
  have pushf: "pq_push (Some q) p e \<noteq> Fault \<and> (\<forall>q'. pq_push (Some q) p e \<noteq> Blocked q')" for p e
    using inv_bounds[OF assms(1)] assms(2) by (simp add: pq_push_advance)
  have popf: "pq_pop (Some q) w e \<noteq> Fault" for w e
    using inv_bounds[OF assms(1)] assms(2) by (simp add: pq_pop_def pop_take_advance)
  have emp: "pq_empty (Some q) e = Return (if head q = tail q then 1 else 0) e" for e
    using assms(2) by (simp add: pq_empty_def)
  have full: "pq_push (Some q) p e = Return (1, Some q) ENOMEM
      \<longleftrightarrow> (unat (tail q) + 1) mod unat (array_capacity q) = unat (head q)" for p e
    unfolding c using inv_bounds[OF assms(1)] assms(2) by (simp add: pq_push_advance)
  show ?thesis
    using push pop popb pushf popf emp full live_empty_iff[OF assms(1)] full_iff[OF assms(1)] c
    by blast
qed

lemma invariants_preserved_witness:
  "pq_inv ex_full \<and> \<not> mtx ex_full
   \<and> pq_pop (Some ex_full) 0 0 = Return (7, Some ex_rest) 0
   \<and> pq_inv ex_rest \<and> \<not> mtx ex_rest
   \<and> pq_push (Some ex_full) 5 0 = Return (1, Some ex_full) ENOMEM
   \<and> (unat (tail ex_full) + 1) mod unat (array_capacity ex_full) = unat (head ex_full)
   \<and> Suc (length (live ex_full)) = unat (array_capacity ex_full)
   \<and> live ex_full = [7, 9] \<and> head ex_full \<noteq> tail ex_full
   \<and> pq_empty (Some ex_full) 0 = Return 0 0"
proof -
  have i: "pq_inv ex_full" by (simp add: pq_inv_def ex_full_def)
  have m: "\<not> mtx ex_full" by (simp add: ex_full_def)
  note t = invariants_preserved[OF i m]
  have p: "pq_pop (Some ex_full) 0 0 = Return (7, Some ex_rest) 0"
    by code_simp
  have f: "(unat (tail ex_full) + 1) mod unat (array_capacity ex_full) = unat (head ex_full)"
    by (simp add: ex_full_def)
  have l: "live ex_full = [7, 9]" by (simp add: live_def ex_full_def)
  have ne: "head ex_full \<noteq> tail ex_full" by (simp add: ex_full_def)
  from t p have "pq_inv ex_rest \<and> \<not> mtx ex_rest" by blast
  moreover from t f have "pq_push (Some ex_full) 5 0 = Return (1, Some ex_full) ENOMEM" by blast
  moreover from t f have "Suc (length (live ex_full)) = unat (array_capacity ex_full)" by blast
  moreover from t ne have "pq_empty (Some ex_full) 0 = Return 0 0" by simp
  ultimately show ?thesis using i m p f l ne by simp
qed

text \<open>
  On a queue that satisfies the invariant \<open>pq_len\<close> reads only \<open>head\<close>, \<open>tail\<close> and \<open>array_capacity\<close>: the 32-bit
  value it returns is 0 when \<open>head = tail\<close>, \<open>tail - head\<close> when \<open>tail > head\<close> and
  \<open>(array_capacity - head) + tail\<close> when \<open>tail < head\<close>, none of which wraps around in
  32 bits; \<open>errno\<close> is untouched. Read as \<open>__s32\<close> the value is that same number
  whenever it is below \<open>2^31\<close>.
\<close>

lemma pq_len_formula:
  assumes "pq_inv q" "\<not> mtx q"
  shows "\<exists>r. pq_len (Some q) e = Return r e
     \<and> unat r = length_spec (unat (head q)) (unat (tail q)) (unat (array_capacity q))
     \<and> (head q = tail q \<longrightarrow> r = 0)
     \<and> (head q < tail q \<longrightarrow> unat r = unat (tail q) - unat (head q))
     \<and> (tail q < head q \<longrightarrow>
          unat r = (unat (array_capacity q) - unat (head q)) + unat (tail q))
     \<and> (unat r < 2147483648 \<longrightarrow>
          sint r = int (length_spec (unat (head q)) (unat (tail q)) (unat (array_capacity q))))"
proof -
  obtain r where r: "pq_len (Some q) e = Return r e" and u: "unat r = length (live q)"
    using pq_len_live[OF assms] by blast
  have l: "unat r = length_spec (unat (head q)) (unat (tail q)) (unat (array_capacity q))"
    using u len_live[OF assms(1)] by simp
  have z: "r = 0" if "head q = tail q"
    using that l by (simp add: length_spec_def unat_eq_0)
  have a: "unat r = unat (tail q) - unat (head q)" if "head q < tail q"
    using that l by (auto simp add: length_spec_def word_less_nat_alt)
  have b: "unat r = (unat (array_capacity q) - unat (head q)) + unat (tail q)" if "tail q < head q"
    using that l by (auto simp add: length_spec_def word_less_nat_alt)
  have s: "sint r = int (length_spec (unat (head q)) (unat (tail q)) (unat (array_capacity q)))"
    if "unat r < 2147483648"
    using sint_small[OF that] l by simp
  show ?thesis using r l z a b s by blast
qed

lemma pq_len_formula_witness:
  "pq_inv ex_rest \<and> \<not> mtx ex_rest \<and> head ex_rest < tail ex_rest
   \<and> pq_len (Some ex_rest) 0 = Return 1 0
   \<and> unat (1 :: s32) = unat (tail ex_rest) - unat (head ex_rest)
   \<and> unat (1 :: s32)
       = length_spec (unat (head ex_rest)) (unat (tail ex_rest)) (unat (array_capacity ex_rest))
   \<and> unat (1 :: s32) < 2147483648
   \<and> sint (1 :: s32)
       = int (length_spec (unat (head ex_rest)) (unat (tail ex_rest)) (unat (array_capacity ex_rest)))"
proof -
  have i: "pq_inv ex_rest" by (simp add: pq_inv_def ex_rest_def word_less_nat_alt)
  have m: "\<not> mtx ex_rest" by (simp add: ex_rest_def)
  have lt: "head ex_rest < tail ex_rest" by (simp add: ex_rest_def word_less_nat_alt)
  have v: "pq_len (Some ex_rest) 0 = Return 1 0" by code_simp
  have small: "unat (1 :: s32) < 2147483648" by simp
  obtain r where r: "pq_len (Some ex_rest) 0 = Return r 0"
    and l: "unat r = length_spec (unat (head ex_rest)) (unat (tail ex_rest))
              (unat (array_capacity ex_rest))"
    and a: "head ex_rest < tail ex_rest \<longrightarrow> unat r = unat (tail ex_rest) - unat (head ex_rest)"
    and s: "unat r < 2147483648 \<longrightarrow> sint r = int (length_spec (unat (head ex_rest))
              (unat (tail ex_rest)) (unat (array_capacity ex_rest)))"
    using pq_len_formula[OF i m, of 0] by blast
  have r1: "r = 1" using r v by simp
  show ?thesis
    using i m lt v l a s small unfolding r1 by blast
qed

section \<open>The claims\<close>

text \<open>
  Claim C5. On a queue that satisfies the invariant and whose mutex is free, \<open>pq_push\<close>
  computes the candidate \<open>(tail + 1) mod array_capacity\<close>; when the candidate equals
  \<open>head\<close> it returns 1 with \<open>errno = ENOMEM\<close> and the queue object is unchanged;
  otherwise it returns 0, the reference is in the slot of the old \<open>tail\<close>, \<open>tail\<close> is the
  candidate, and nothing else (nor \<open>errno\<close>) has changed.
\<close>

theorem push_check_then_commit:
  assumes "pq_inv q" "\<not> mtx q"
  shows "pq_push (Some q) p e =
     (let candidate = (unat (tail q) + 1) mod unat (array_capacity q) in
      if candidate = unat (head q) then Return (1, Some q) ENOMEM
      else Return (0, Some (q\<lparr>data := (data q)[unat (tail q) := p],
                              tail := of_nat candidate\<rparr>)) e)"
proof -
  have tl: "tail q < array_capacity q" using assms(1) by (simp add: pq_inv_def)
  have c: "(unat (tail q) + 1) mod unat (array_capacity q) = unat (advance (tail q) (array_capacity q))"
    using unat_advance_mod[OF tl] by simp
  have eq: "unat (advance (tail q) (array_capacity q)) = unat (head q) \<longleftrightarrow> advance (tail q) (array_capacity q) = head q"
    by (simp add: word_unat_eq_iff)
  show ?thesis
    unfolding c Let_def eq
    using inv_bounds[OF assms(1)] assms(2) by (simp add: pq_push_advance)
qed

theorem push_check_then_commit_witness:
  "pq_inv ex_one \<and> \<not> mtx ex_one
   \<and> pq_push (Some ex_one) 9 0 = Return (0, Some ex_full) 0
   \<and> pq_inv ex_full \<and> \<not> mtx ex_full
   \<and> pq_push (Some ex_full) 5 0 = Return (1, Some ex_full) ENOMEM"
proof -
  have i1: "pq_inv ex_one" by (simp add: pq_inv_def ex_one_def)
  have i2: "pq_inv ex_full" by (simp add: pq_inv_def ex_full_def)
  have m1: "\<not> mtx ex_one" by (simp add: ex_one_def)
  have m2: "\<not> mtx ex_full" by (simp add: ex_full_def)
  have "pq_push (Some ex_one) 9 0 = Return (0, Some ex_full) 0"
    unfolding push_check_then_commit[OF i1 m1] by (simp add: ex_one_def ex_full_def)
  moreover have "pq_push (Some ex_full) 5 0 = Return (1, Some ex_full) ENOMEM"
    unfolding push_check_then_commit[OF i2 m2] by (simp add: ex_full_def)
  ultimately show ?thesis using i1 i2 m1 m2 by simp
qed

text \<open>
  Claim C2. FIFO order. A run of pushes and pops (blocking or not) by one thread on a queue
  that satisfies the invariant never leaves the slot array, and the references handed out by
  its pops, followed by the entries still live at the end, are the entries live at the start
  followed by the references its pushes accepted: pops deliver in push order. In particular,
  on the queue made by \<open>pq_init(10, 0)\<close>, pushing 1 to 10 succeeds ten times, the next ten
  pops (with and without \<open>wait\<close>) return 1 to 10 in that order, and an eleventh pop without
  \<open>wait\<close> finds the queue empty and returns \<open>NULL\<close>.
\<close>

theorem fifo_order:
  "(\<forall>q e ops evs fin. pq_inv q \<and> \<not> mtx q \<and> run q e ops = (evs, fin) \<longrightarrow>
      (\<exists>q'. final_queue fin = Some q' \<and> live q @ pushed evs = popped evs @ live q'))
   \<and> pq_init 10 0 al_ok 0 = Return (Some (fresh 10)) 0
   \<and> user_capacity (fresh 10) = 10
   \<and> run (fresh 10) 0
        ([Push 1, Push 2, Push 3, Push 4, Push 5, Push 6, Push 7, Push 8, Push 9, Push 10,
          Pop 1, Pop 0, Pop 1, Pop 0, Pop 1, Pop 0, Pop 1, Pop 0, Pop 1, Pop 0, Pop 0])
      = ([PushEv 1 0, PushEv 2 0, PushEv 3 0, PushEv 4 0, PushEv 5 0,
          PushEv 6 0, PushEv 7 0, PushEv 8 0, PushEv 9 0, PushEv 10 0,
          PopEv 1 1 True, PopEv 0 2 True, PopEv 1 3 True, PopEv 0 4 True, PopEv 1 5 True,
          PopEv 0 6 True, PopEv 1 7 True, PopEv 0 8 True, PopEv 1 9 True, PopEv 0 10 True,
          PopEv 0 NULL False],
         Return ((fresh 10)\<lparr>head := 10, tail := 10\<rparr>) 0)"
proof -
  have g: "\<exists>q'. final_queue fin = Some q' \<and> live q @ pushed evs = popped evs @ live q'"
    if "pq_inv q" "\<not> mtx q" "run q e ops = (evs, fin)" for q e ops evs fin
    using run_inv[OF that] by blast
  have i: "pq_init 10 0 al_ok 0 = Return (Some (fresh 10)) 0"
    by code_simp
  have u: "user_capacity (fresh 10) = 10"
    by code_simp
  have r: "run (fresh 10) 0
        ([Push 1, Push 2, Push 3, Push 4, Push 5, Push 6, Push 7, Push 8, Push 9, Push 10,
          Pop 1, Pop 0, Pop 1, Pop 0, Pop 1, Pop 0, Pop 1, Pop 0, Pop 1, Pop 0, Pop 0])
      = ([PushEv 1 0, PushEv 2 0, PushEv 3 0, PushEv 4 0, PushEv 5 0,
          PushEv 6 0, PushEv 7 0, PushEv 8 0, PushEv 9 0, PushEv 10 0,
          PopEv 1 1 True, PopEv 0 2 True, PopEv 1 3 True, PopEv 0 4 True, PopEv 1 5 True,
          PopEv 0 6 True, PopEv 1 7 True, PopEv 0 8 True, PopEv 1 9 True, PopEv 0 10 True,
          PopEv 0 NULL False],
         Return ((fresh 10)\<lparr>head := 10, tail := 10\<rparr>) 0)"
    by code_simp
  show ?thesis using g i u r by blast
qed

theorem fifo_order_witness:
  "pq_inv ex_one \<and> \<not> mtx ex_one
   \<and> run ex_one 0 [Push 9, Push 4, Pop 0, Push 5, Pop 1, Pop 0, Push 6, Pop 0, Pop 0]
       = ([PushEv 9 0, PushEv 4 1, PopEv 0 7 True, PushEv 5 0, PopEv 1 9 True, PopEv 0 5 True,
           PushEv 6 0, PopEv 0 6 True, PopEv 0 NULL False],
          Return (ex_one\<lparr>data := [0, 0, 0], head := 1, tail := 1\<rparr>) ENOMEM)
   \<and> live ex_one @ [9, 5, 6] = [7, 9, 5, 6] @ live (ex_one\<lparr>data := [0, 0, 0], head := 1, tail := 1\<rparr>)"
proof -
  let ?ops = "[Push 9, Push 4, Pop 0, Push 5, Pop 1, Pop 0, Push 6, Pop 0, Pop 0]"
  let ?evs = "[PushEv 9 0, PushEv 4 1, PopEv 0 7 True, PushEv 5 0, PopEv 1 9 True, PopEv 0 5 True,
           PushEv 6 0, PopEv 0 6 True, PopEv 0 NULL False]"
  let ?q' = "ex_one\<lparr>data := [0, 0, 0], head := 1, tail := 1\<rparr>"
  have i: "pq_inv ex_one" by (simp add: pq_inv_def ex_one_def)
  have m: "\<not> mtx ex_one" by (simp add: ex_one_def)
  have r: "run ex_one 0 ?ops = (?evs, Return ?q' ENOMEM)"
    by code_simp
  from fifo_order i m r
  have "\<exists>q'. final_queue (Return ?q' ENOMEM) = Some q'
          \<and> live ex_one @ pushed ?evs = popped ?evs @ live q'"
    by blast
  then have "live ex_one @ pushed ?evs = popped ?evs @ live ?q'"
    by (simp add: final_queue_def)
  then have "live ex_one @ [9, 5, 6] = [7, 9, 5, 6] @ live ?q'"
    by simp
  then show ?thesis using i m r by simp
qed

text \<open>
  Claim C10. Pushing \<open>NULL\<close> onto a queue that is not full succeeds (result 0). After the
  entries that were ahead of it have been popped, the pop that dequeues it returns \<open>NULL\<close>
  and leaves \<open>errno\<close> as it was; a pop without \<open>wait\<close> on the then empty queue, and
  one that finds the mutex taken, return the same \<open>NULL\<close> with the same \<open>errno\<close>.
\<close>

theorem null_push_pop_indistinguishable:
  assumes "pq_inv q" "\<not> mtx q"
    "(unat (tail q) + 1) mod unat (array_capacity q) \<noteq> unat (head q)"
  shows "\<exists>q'. run q e (Push NULL # map Pop (replicate (length (live q)) 0) @ [Pop 0])
             = (PushEv NULL 0 # map (\<lambda>v. PopEv 0 v True) (live q) @ [PopEv 0 NULL True],
                Return q' e)
          \<and> \<not> pop_dequeues q'
          \<and> pq_pop (Some q') 0 e = Return (NULL, Some q') e
          \<and> pq_pop (Some (q'\<lparr>mtx := True\<rparr>)) 0 e = Return (NULL, Some (q'\<lparr>mtx := True\<rparr>)) e"
proof -
  have tl: "tail q < array_capacity q" using assms(1) by (simp add: pq_inv_def)
  have nf: "advance (tail q) (array_capacity q) \<noteq> head q"
    using assms(3) unat_advance_mod[OF tl] by auto
  let ?q1 = "q\<lparr>data := (data q)[unat (tail q) := NULL], tail := advance (tail q) (array_capacity q)\<rparr>"
  note ok = push_ok[OF assms(1,2) nf, of NULL]
  let ?ws = "replicate (length (live q)) 0 @ [0::int]"
  have len: "length ?ws \<le> length (live ?q1)" using ok(4) by simp
  obtain q' where r: "run ?q1 e (map Pop ?ws) = (map2 (\<lambda>w v. PopEv w v True) ?ws (live ?q1), Return q' e)"
    and i': "pq_inv q'" and m': "\<not> mtx q'" and l': "live q' = drop (length ?ws) (live ?q1)"
    using run_pops[OF ok(2,3) len, of e] by blast
  have z: "map2 (\<lambda>w v. PopEv w v True) ?ws (live ?q1)
      = map (\<lambda>v. PopEv 0 v True) (live q) @ [PopEv 0 NULL True]"
    unfolding ok(4) by (simp add: zip_replicate1 map_replicate_const flip: replicate_append_same)
  have e': "head q' = tail q'" using l' ok(4) live_empty_iff[OF i'] by simp
  have "run q e (Push NULL # map Pop (replicate (length (live q)) 0) @ [Pop 0])
      = (PushEv NULL 0 # map (\<lambda>v. PopEv 0 v True) (live q) @ [PopEv 0 NULL True], Return q' e)"
    using ok(1)[of e] r z by simp
  moreover have "\<not> pop_dequeues q'" using e' by (simp add: pop_dequeues_def)
  moreover have "pq_pop (Some q') 0 e = Return (NULL, Some q') e"
    using pop_empty_nowait[OF m' e'] .
  moreover have "pq_pop (Some (q'\<lparr>mtx := True\<rparr>)) 0 e = Return (NULL, Some (q'\<lparr>mtx := True\<rparr>)) e"
    by (simp add: pq_pop_def)
  ultimately show ?thesis by blast
qed

theorem null_push_pop_indistinguishable_witness:
  "pq_inv ex_one \<and> \<not> mtx ex_one
   \<and> (unat (tail ex_one) + 1) mod unat (array_capacity ex_one) \<noteq> unat (head ex_one)
   \<and> run ex_one 0 [Push NULL, Pop 0, Pop 0]
       = ([PushEv NULL 0, PopEv 0 7 True, PopEv 0 NULL True],
          Return (ex_one\<lparr>data := [0, 0, 0], head := 2, tail := 2\<rparr>) 0)
   \<and> \<not> pop_dequeues (ex_one\<lparr>data := [0, 0, 0], head := 2, tail := 2\<rparr>)
   \<and> pq_pop (Some (ex_one\<lparr>data := [0, 0, 0], head := 2, tail := 2\<rparr>)) 0 0
       = Return (NULL, Some (ex_one\<lparr>data := [0, 0, 0], head := 2, tail := 2\<rparr>)) 0
   \<and> pq_pop (Some (ex_one\<lparr>data := [0, 0, 0], head := 2, tail := 2, mtx := True\<rparr>)) 0 0
       = Return (NULL, Some (ex_one\<lparr>data := [0, 0, 0], head := 2, tail := 2, mtx := True\<rparr>)) 0"
proof -
  let ?q' = "ex_one\<lparr>data := [0, 0, 0], head := 2, tail := 2\<rparr>"
  have i: "pq_inv ex_one" by (simp add: pq_inv_def ex_one_def)
  have m: "\<not> mtx ex_one" by (simp add: ex_one_def)
  have nf: "(unat (tail ex_one) + 1) mod unat (array_capacity ex_one) \<noteq> unat (head ex_one)"
    by (simp add: ex_one_def)
  have l: "live ex_one = [7]" by (simp add: live_def ex_one_def)
  have r: "run ex_one 0 [Push NULL, Pop 0, Pop 0]
       = ([PushEv NULL 0, PopEv 0 7 True, PopEv 0 NULL True], Return ?q' 0)"
    by code_simp
  obtain q' where
    r': "run ex_one 0 (Push NULL # map Pop (replicate (length (live ex_one)) 0) @ [Pop 0])
             = (PushEv NULL 0 # map (\<lambda>v. PopEv 0 v True) (live ex_one) @ [PopEv 0 NULL True],
                Return q' 0)"
    and d: "\<not> pop_dequeues q'"
    and p: "pq_pop (Some q') 0 0 = Return (NULL, Some q') 0"
    and b: "pq_pop (Some (q'\<lparr>mtx := True\<rparr>)) 0 0 = Return (NULL, Some (q'\<lparr>mtx := True\<rparr>)) 0"
    using null_push_pop_indistinguishable[OF i m nf, of 0] by blast
  have "q' = ?q'" using r r' unfolding l by simp
  then show ?thesis using i m nf r d p b by simp
qed

text \<open>
  Claim C6, at a failing input. \<open>pq_init(2, 8)\<close> whose third \<open>calloc\<close> (the pool
  region) fails sets \<open>errno = ENOMEM\<close> and jumps to \<open>end\<close> with \<open>pq\<close> still set: the caller
  receives the queue object, with its slot array and no pool. When the second \<open>calloc\<close>
  fails the struct is freed and \<open>NULL\<close> is returned.
\<close>

theorem init_buf_failure_returns_queue:
  "pq_init 2 8 al_nobuf 0
     = Return (Some \<lparr>mtx = False, waiting = 0, data = [0, 0, 0], buf = NULL, head = 0, tail = 0,
                      array_capacity = 3, user_capacity = 2\<rparr>) ENOMEM
   \<and> pq_init 2 8 (al_ok\<lparr>calloc_data := False\<rparr>) 0 = Return None ENOMEM"
  by code_simp

text \<open>
  Claim C7, at a failing input. \<open>pq_pop\<close> without \<open>wait\<close> on a queue whose mutex is
  taken, and on the empty queue made by \<open>pq_init(2, 0)\<close>, gives the caller the same
  result: \<open>NULL\<close>, with \<open>errno\<close> and the queue untouched.
\<close>

theorem pop_failures_conflated:
  "pq_pop (Some (ex_one\<lparr>mtx := True\<rparr>)) 0 0 = Return (NULL, Some (ex_one\<lparr>mtx := True\<rparr>)) 0
   \<and> pq_pop (Some (fresh 2)) 0 0 = Return (NULL, Some (fresh 2)) 0
   \<and> pq_init 2 0 al_ok 0 = Return (Some (fresh 2)) 0"
  by code_simp

text \<open>
  Claim C1, at a failing input. \<open>pq_init(4294967296, 0)\<close> stores \<open>count + 1\<close> and
  \<open>count\<close> in 32-bit fields: the queue it returns has \<open>array_capacity = 1\<close> and
  \<open>user_capacity = 0\<close>, and its first \<open>pq_push\<close> is refused with \<open>ENOMEM\<close>.
\<close>

theorem init_truncates_capacity:
  "pq_init 4294967296 0 al_ok 0
     = Return (Some \<lparr>mtx = False, waiting = 0, data = [0], buf = NULL, head = 0, tail = 0,
                      array_capacity = 1, user_capacity = 0\<rparr>) 0
   \<and> pq_push (Some \<lparr>mtx = False, waiting = 0, data = [0], buf = NULL, head = 0, tail = 0,
                      array_capacity = 1, user_capacity = 0\<rparr>) 1 0
     = Return (1, Some \<lparr>mtx = False, waiting = 0, data = [0], buf = NULL, head = 0, tail = 0,
                      array_capacity = 1, user_capacity = 0\<rparr>) ENOMEM"
  by code_simp

text \<open>
  Claim C3, at a failing input. On the queue made by \<open>pq_init(2147483648, 0)\<close>,
  2147483648 pushes in a row are accepted and no pop has run; \<open>pq_len\<close> then returns the
  32-bit pattern \<open>0x80000000\<close>, which its return type \<open>__s32\<close> reads as -2147483648.
\<close>

theorem pq_len_negative_when_large:
  "pq_init 2147483648 0 al_ok 0 = Return (Some (fresh 2147483648)) 0
   \<and> (\<exists>q'. run (fresh 2147483648) 0 (map Push (replicate 2147483648 1))
              = (map (\<lambda>p. PushEv p 0) (replicate 2147483648 1), Return q' 0)
          \<and> length (pushed (map (\<lambda>p. PushEv p 0) (replicate 2147483648 1))) = 2147483648
          \<and> popped (map (\<lambda>p. PushEv p 0) (replicate 2147483648 1)) = []
          \<and> pq_len (Some q') 0 = Return 2147483648 0
          \<and> sint (2147483648 :: s32) = - 2147483648)"
proof -
  let ?n = "2147483648 :: size_t"
  let ?ps = "replicate 2147483648 (1 :: ptr)"
  have b: "unat ?n + 1 < 2 ^ 32" by simp
  have i: "pq_init ?n 0 al_ok 0 = Return (Some (fresh ?n)) 0"
    by (rule pq_init_plain) (simp_all add: al_ok_def)
  note f = fresh_props[OF b]
  have room: "length (live (fresh ?n)) + length ?ps < unat (array_capacity (fresh ?n))"
    unfolding f(3) f(4) by simp
  obtain q' where r: "run (fresh ?n) 0 (map Push ?ps) = (map (\<lambda>p. PushEv p 0) ?ps, Return q' 0)"
    and i': "pq_inv q'" and m': "\<not> mtx q'" and l': "live q' = live (fresh ?n) @ ?ps"
    using run_pushes[OF f(1) f(2) room, of 0] by blast
  obtain r where len: "pq_len (Some q') 0 = Return r 0" and u: "unat r = length (live q')"
    using pq_len_live[OF i' m', of 0] by blast
  have "unat r = 2147483648" unfolding u l' f(3) by simp
  then have r2: "r = 2147483648" by (rule word_of_unat_big)
  have pu: "pushed (map (\<lambda>p. PushEv p 0) ps) = ps" for ps :: "ptr list"
    by (induction ps) simp_all
  have po: "popped (map (\<lambda>p. PushEv p 0) ps) = []" for ps :: "ptr list"
    by (induction ps) simp_all
  have s: "sint (2147483648 :: s32) = - 2147483648" by simp
  have lp: "length (pushed (map (\<lambda>p. PushEv p 0) ?ps)) = 2147483648"
    unfolding pu by simp
  show ?thesis using i r len lp po s unfolding r2 by blast
qed

text \<open>
  Claim C8, at a failing input. \<open>pq_init(4294967296, 1)\<close> with every allocation granted
  makes a queue with \<open>array_capacity = 1\<close>: each of the 4294967296 calls of \<open>pq_push\<close> in
  the loop is refused, \<open>pq_len\<close> returns 0 and the first pop finds the queue empty.
\<close>

theorem pool_init_truncates_capacity:
  "pq_init 4294967296 1 al_ok 0
     = Return (Some \<lparr>mtx = False, waiting = 0, data = [0], buf = 4096, head = 0, tail = 0,
                      array_capacity = 1, user_capacity = 0\<rparr>) ENOMEM
   \<and> pq_len (Some \<lparr>mtx = False, waiting = 0, data = [0], buf = 4096, head = 0, tail = 0,
                      array_capacity = 1, user_capacity = 0\<rparr>) ENOMEM = Return 0 ENOMEM
   \<and> pq_pop (Some \<lparr>mtx = False, waiting = 0, data = [0], buf = 4096, head = 0, tail = 0,
                      array_capacity = 1, user_capacity = 0\<rparr>) 0 ENOMEM
       = Return (NULL, Some \<lparr>mtx = False, waiting = 0, data = [0], buf = 4096, head = 0, tail = 0,
                      array_capacity = 1, user_capacity = 0\<rparr>) ENOMEM
   \<and> \<not> pop_dequeues \<lparr>mtx = False, waiting = 0, data = [0], buf = 4096, head = 0, tail = 0,
                      array_capacity = 1, user_capacity = 0\<rparr>"
proof -
  let ?q = "\<lparr>mtx = False, waiting = 0, data = [0], buf = 4096, head = 0, tail = 0,
                      array_capacity = 1, user_capacity = 0\<rparr> :: ptr_queue"
  have full: "advance (tail ?q) (array_capacity ?q) = head ?q" by (simp add: advance_def)
  have m: "\<not> mtx ?q" by simp
  have loop: "init_loop ?q 0 4294967296 1 0 = Return ?q ENOMEM"
    using init_loop_full[OF m full, of 0 4294967296 1 0] by simp
  have w1: "(4294967297 :: u32) = 1" by simp
  have w0: "(4294967296 :: u32) = 0" by simp
  have "pq_init 4294967296 1 al_ok 0 = Return (Some ?q) ENOMEM"
    using loop by (simp add: pq_init_def al_ok_def NULL_def w1 w0)
  moreover have "pq_len (Some ?q) ENOMEM = Return 0 ENOMEM" by (simp add: pq_len_def)
  moreover have "pq_pop (Some ?q) 0 ENOMEM = Return (NULL, Some ?q) ENOMEM" by (simp add: pq_pop_def)
  moreover have "\<not> pop_dequeues ?q" by (simp add: pop_dequeues_def)
  ultimately show ?thesis by simp
qed

text \<open>
  Claim C4, at a failing input. The queue made by \<open>pq_init(2147483648, 0)\<close>, after
  2147483648 accepted pushes, satisfies the invariant with \<open>head = 0\<close> and
  \<open>tail = 2147483648\<close>, so \<open>tail > head\<close> and \<open>tail - head\<close> is 2147483648; \<open>pq_len\<close>
  hands that difference out through its \<open>__s32\<close> result, where it is -2147483648.
\<close>

theorem pq_len_not_tail_minus_head:
  "pq_init 2147483648 0 al_ok 0 = Return (Some (fresh 2147483648)) 0
   \<and> (\<exists>q'. run (fresh 2147483648) 0 (map Push (replicate 2147483648 1))
              = (map (\<lambda>p. PushEv p 0) (replicate 2147483648 1), Return q' 0)
          \<and> pq_inv q' \<and> \<not> mtx q'
          \<and> head q' = 0 \<and> tail q' = 2147483648 \<and> head q' < tail q'
          \<and> int (unat (tail q')) - int (unat (head q')) = 2147483648
          \<and> (\<exists>r. pq_len (Some q') 0 = Return r 0 \<and> sint r = - 2147483648))"
proof -
  let ?n = "2147483648 :: size_t"
  let ?ps = "replicate 2147483648 (1 :: ptr)"
  have b: "unat ?n + 1 < 2 ^ 32" by simp
  have i: "pq_init ?n 0 al_ok 0 = Return (Some (fresh ?n)) 0"
    by (rule pq_init_plain) (simp_all add: al_ok_def)
  note f = fresh_props[OF b]
  have h0: "head (fresh ?n) = 0" by (simp add: fresh_def)
  have room: "length (live (fresh ?n)) + length ?ps < unat (array_capacity (fresh ?n))"
    unfolding f(3) f(4) by simp
  obtain q' where r: "run (fresh ?n) 0 (map Push ?ps) = (map (\<lambda>p. PushEv p 0) ?ps, Return q' 0)"
    and i': "pq_inv q'" and m': "\<not> mtx q'" and hd: "head q' = head (fresh ?n)"
    and l': "live q' = live (fresh ?n) @ ?ps"
    using run_pushes[OF f(1) f(2) room, of 0] by blast
  have h: "head q' = 0" using hd h0 by simp
  have ll: "length (live q') = 2147483648" unfolding l' f(3) by simp
  have "length (live q') = length_spec (unat (head q')) (unat (tail q')) (unat (array_capacity q'))"
    by (rule len_live[OF i'])
  then have "length (live q') = unat (tail q')"
    unfolding h by (simp add: length_spec_def)
  then have ut: "unat (tail q') = 2147483648" using ll by (simp only:)
  then have t: "tail q' = 2147483648" by (rule word_of_unat_big)
  have lt: "head q' < tail q'" unfolding h t by simp
  have d: "int (unat (tail q')) - int (unat (head q')) = 2147483648"
    unfolding h t by simp
  have len: "pq_len (Some q') 0 = Return (tail q' - head q') 0"
    using m' lt by (auto simp add: pq_len_def)
  have s: "sint (tail q' - head q') = - 2147483648"
    unfolding h t by simp
  show ?thesis using i r i' m' h t lt d len s by blast
qed

text \<open>
  Claim C9, at a failing input. \<open>pq_init(4294967295, 0)\<close>, when \<open>calloc\<close> answers the
  request for zero slots with a pointer, returns a queue with \<open>array_capacity = 0\<close> and
  \<open>head = tail = 0\<close>: \<open>head < array_capacity\<close> does not hold in it, and its first
  \<open>pq_push\<close> writes slot 0 of an array that has no slot.
\<close>

theorem init_zero_capacity_breaks_invariant:
  "pq_init 4294967295 0 al_ok 0
     = Return (Some \<lparr>mtx = False, waiting = 0, data = [], buf = NULL, head = 0, tail = 0,
                      array_capacity = 0, user_capacity = 4294967295\<rparr>) 0
   \<and> \<not> head \<lparr>mtx = False, waiting = 0, data = [], buf = NULL, head = 0, tail = 0,
                array_capacity = 0, user_capacity = 4294967295\<rparr>
         < array_capacity \<lparr>mtx = False, waiting = 0, data = [], buf = NULL, head = 0, tail = 0,
                array_capacity = 0, user_capacity = 4294967295\<rparr>
   \<and> \<not> pq_inv \<lparr>mtx = False, waiting = 0, data = [], buf = NULL, head = 0, tail = 0,
                   array_capacity = 0, user_capacity = 4294967295\<rparr>
   \<and> pq_push (Some \<lparr>mtx = False, waiting = 0, data = [], buf = NULL, head = 0, tail = 0,
                      array_capacity = 0, user_capacity = 4294967295\<rparr>) 1 0 = Fault"
  by code_simp

end
